theory Spec2Isabelle
  imports Main
begin

section \<open>JavaScript values and template-literal conversion\<close>

text \<open>
  The cache of \<^verbatim>\<open>src/experimental-simple-cache/cache.ts\<close> handles values of type
  \<^verbatim>\<open>any\<close>. The model keeps the primitive values the callers pass as inputs and the
  promises that \<^verbatim>\<open>read\<close> throws. A promise is a reference: \<open>JPromise p\<close> is the
  promise at address \<open>p\<close> of the promise store.

  The numbers of the model are the safe integers of JavaScript, those between
  \<^verbatim>\<open>Number.MIN_SAFE_INTEGER\<close> and \<^verbatim>\<open>Number.MAX_SAFE_INTEGER\<close> (\<open>2^53 - 1\<close>).
  Each of them is a number value of its own, and a template literal prints it with all
  its decimal digits. Larger numbers, which are printed rounded or with an exponent, and
  fractions are not values of the model.
\<close>

typedef safe_integer = "{n :: int. - 9007199254740991 \<le> n \<and> n \<le> 9007199254740991}"
  by (rule exI [of _ 0]) simp

datatype jsval =
    JUndefined
  | JNull
  | JBool bool
  | JNum safe_integer
  | JStr string
  | JPromise nat

fun decimal :: "nat \<Rightarrow> string" where
  "decimal n =
     (if n < 10 then [''0123456789'' ! n]
      else decimal (n div 10) @ [''0123456789'' ! (n mod 10)])"

declare decimal.simps [simp del]

text \<open>The string that \<^verbatim>\<open>`${input}`\<close> produces.\<close>

fun toString :: "jsval \<Rightarrow> string" where
  "toString JUndefined = ''undefined''"
| "toString JNull = ''null''"
| "toString (JBool b) = (if b then ''true'' else ''false'')"
| "toString (JNum n) =
     (if Rep_safe_integer n < 0 then ''-'' @ decimal (nat (- Rep_safe_integer n))
      else decimal (nat (Rep_safe_integer n)))"
| "toString (JStr s) = s"
| "toString (JPromise p) = ''[object Promise]''"

text \<open>
  What a decimal numeral means, read independently of how \<open>toString\<close> prints: the
  value of a digit, of a string of digits and of a numeral with an optional minus sign,
  and the numerals in canonical form (at least one digit, digits only, no leading zero,
  no \<^verbatim>\<open>-0\<close>). A number has exactly one canonical numeral.
\<close>

definition digit_value :: "char \<Rightarrow> nat" where
  "digit_value c = of_char c - 48"

definition parse_decimal :: "string \<Rightarrow> nat" where
  "parse_decimal ds = foldl (\<lambda>a c. 10 * a + digit_value c) 0 ds"

definition numeral_value :: "string \<Rightarrow> int" where
  "numeral_value s =
     (case s of
        [] \<Rightarrow> 0
      | c # ds \<Rightarrow> if c = CHR ''-'' then - int (parse_decimal ds) else int (parse_decimal s))"

definition plain_digits :: "string \<Rightarrow> bool" where
  "plain_digits ds \<longleftrightarrow>
     ds \<noteq> [] \<and> list_all (\<lambda>c. c \<in> set ''0123456789'') ds \<and> (ds = ''0'' \<or> hd ds \<noteq> CHR ''0'')"

definition canonical_numeral :: "string \<Rightarrow> bool" where
  "canonical_numeral s =
     (case s of
        [] \<Rightarrow> False
      | c # ds \<Rightarrow> if c = CHR ''-'' then plain_digits ds \<and> ds \<noteq> ''0'' else plain_digits s)"

section \<open>Promises, resource objects and the module state\<close>

text \<open>
  A promise settles at most once, and the continuations registered on it with
  \<^verbatim>\<open>then\<close> run after it has settled, never inside the call that registers them.
  The model has one event for both: a promise is \<open>Pending rs\<close> until its reactions
  \<open>rs\<close> have run, where a reaction is the address of the resource object whose two
  continuations \<^verbatim>\<open>accessData\<close> registered.
\<close>

datatype settlement = Fulfil jsval | Reject jsval

datatype promise_state = Pending "nat list" | Settled settlement

text \<open>
  The object literal \<^verbatim>\<open>{ promise, status, value }\<close> built in \<^verbatim>\<open>accessData\<close>.
  The field \<^verbatim>\<open>value\<close> is named \<open>rvalue\<close> here.
\<close>

record resource =
  promise :: nat
  status :: string
  rvalue :: jsval

text \<open>
  One record per evaluation of \<^verbatim>\<open>fetch(input)\<close>: the key \<^verbatim>\<open>accessData\<close> was
  called with, the loader, its argument and the promise it returned. The list of these
  records is the only instrumentation added to the code.
\<close>

record call =
  call_key :: string
  call_fetch :: nat
  call_input :: jsval
  call_promise :: nat

text \<open>
  \<open>resourceCache\<close> is the module-level \<^verbatim>\<open>const resourceCache = new Map()\<close>; it maps
  a key to the address of a resource object in \<open>objects\<close>, so that the object a
  continuation mutates and the object the map returns are the same one exactly when
  their addresses agree.
\<close>

record state =
  resourceCache :: "string \<rightharpoonup> nat"
  objects :: "resource list"
  promises :: "promise_state list"
  calls :: "call list"

definition init :: state where
  "init = \<lparr>resourceCache = Map.empty, objects = [], promises = [], calls = []\<rparr>"

definition lookup :: "'a list \<Rightarrow> nat \<Rightarrow> 'a option" where
  "lookup xs i = (if i < length xs then Some (xs ! i) else None)"

text \<open>
  What \<^verbatim>\<open>createResource\<close> closes over: the family name \<^verbatim>\<open>fetchKey\<close> and the loader
  \<^verbatim>\<open>fetch\<close>, a function object known by its identity. Loaders follow the loader
  contract of the specification, as every loader of the repository does (they are
  \<^verbatim>\<open>async\<close> functions or \<^verbatim>\<open>new Promise(...)\<close>): an invocation returns a new promise
  and does not touch the cache.
\<close>

record handle =
  fetchKey :: string
  fetch :: nat

definition createResource :: "string \<Rightarrow> nat \<Rightarrow> handle" where
  "createResource fk f = \<lparr>fetchKey = fk, fetch = f\<rparr>"

text \<open>\<^verbatim>\<open>fetch(input)\<close>, evaluated inside \<^verbatim>\<open>accessData(key, input)\<close>.\<close>

definition invoke :: "nat \<Rightarrow> string \<Rightarrow> jsval \<Rightarrow> state \<Rightarrow> nat \<times> state" where
  "invoke f key input s =
     (let p = length (promises s)
      in (p, s\<lparr>promises := promises s @ [Pending []],
               calls := calls s @
                 [\<lparr>call_key = key, call_fetch = f, call_input = input, call_promise = p\<rparr>]\<rparr>))"

text \<open>
  \<^verbatim>\<open>resource.promise.then(value => ..., error => ...)\<close> for the resource object at
  address \<open>a\<close>. \<^verbatim>\<open>accessData\<close> calls it on the promise the loader has just returned,
  whose reactions have not run (lemma \<open>accessData_absent\<close> gives the resulting
  state), so the branch for any other promise is never taken.
\<close>

definition promise_then :: "nat \<Rightarrow> nat \<Rightarrow> state \<Rightarrow> state" where
  "promise_then p a s =
     (case lookup (promises s) p of
        Some (Pending rs) \<Rightarrow> s\<lparr>promises := (promises s)[p := Pending (rs @ [a])]\<rparr>
      | _ \<Rightarrow> s)"

text \<open>The two continuations of \<^verbatim>\<open>accessData\<close>, as one function of the settlement.\<close>

fun continuation :: "settlement \<Rightarrow> resource \<Rightarrow> resource" where
  "continuation (Fulfil v) r = r\<lparr>status := ''resolved'', rvalue := v\<rparr>"
| "continuation (Reject e) r = r\<lparr>status := ''error'', rvalue := e\<rparr>"

definition react :: "settlement \<Rightarrow> nat \<Rightarrow> resource list \<Rightarrow> resource list" where
  "react out a objs = (if a < length objs then objs[a := continuation out (objs ! a)] else objs)"

text \<open>Promise \<open>p\<close> settles with \<open>out\<close> and its reactions run; a settled promise stays as it is.\<close>

definition settle :: "nat \<Rightarrow> settlement \<Rightarrow> state \<Rightarrow> state" where
  "settle p out s =
     (case lookup (promises s) p of
        Some (Pending rs) \<Rightarrow>
          s\<lparr>objects := fold (react out) rs (objects s),
            promises := (promises s)[p := Settled out]\<rparr>
      | _ \<Rightarrow> s)"

section \<open>The resource cache\<close>

definition accessData :: "handle \<Rightarrow> string \<Rightarrow> jsval \<Rightarrow> state \<Rightarrow> state" where
  "accessData h key input s =
     (if resourceCache s key = None then
        (let (p, s1) = invoke (fetch h) key input s;
             a = length (objects s1);
             s2 = s1\<lparr>objects := objects s1 @
                       [\<lparr>promise = p, status = ''pending'', rvalue = JNull\<rparr>]\<rparr>;
             s3 = promise_then p a s2
         in s3\<lparr>resourceCache := (resourceCache s3)(key \<mapsto> a)\<rparr>)
      else s)"

text \<open>
  How a call ends: it returns a value, throws a value, or fails with the
  \<^verbatim>\<open>TypeError\<close> of reading \<^verbatim>\<open>status\<close> from \<^verbatim>\<open>undefined\<close>.
\<close>

datatype outcome = Return jsval | Throw jsval | TypeError

definition read :: "handle \<Rightarrow> jsval \<Rightarrow> state \<Rightarrow> outcome \<times> state" where
  "read h input s =
     (let key = fetchKey h @ '':'' @ toString input;
          s' = accessData h key input s
      in case resourceCache s' key of
           None \<Rightarrow> (TypeError, s')
         | Some a \<Rightarrow>
             (case lookup (objects s') a of
                None \<Rightarrow> (TypeError, s')
              | Some result \<Rightarrow>
                  (if status result = ''pending'' then Throw (JPromise (promise result))
                   else if status result = ''resolved'' then Return (rvalue result)
                   else if status result = ''rejected'' then Throw (rvalue result)
                   else Return JUndefined, s')))"

definition preload :: "handle \<Rightarrow> jsval \<Rightarrow> state \<Rightarrow> outcome \<times> state" where
  "preload h input s =
     (let key = fetchKey h @ '':'' @ toString input
      in (Return JUndefined, accessData h key input s))"

text \<open>
  \<^verbatim>\<open>src/components/SuspenseImage.tsx\<close>: every call of \<^verbatim>\<open>preloadImage\<close> builds a new
  loader closure, whose identity \<open>f\<close> is a parameter here, and \<^verbatim>\<open>loadImage\<close> reads
  without an argument, so the input is \<^verbatim>\<open>undefined\<close>. Its body is a block without
  \<^verbatim>\<open>return\<close>: what \<^verbatim>\<open>read\<close> throws passes through, what it returns is dropped.
\<close>

definition preloadImage :: "string \<Rightarrow> nat \<Rightarrow> handle" where
  "preloadImage src f = createResource src f"

definition loadImage :: "string \<Rightarrow> nat \<Rightarrow> state \<Rightarrow> outcome \<times> state" where
  "loadImage src f s =
     (case read (preloadImage src f) JUndefined s of
        (Return v, s') \<Rightarrow> (Return JUndefined, s')
      | (out, s') \<Rightarrow> (out, s'))"

section \<open>Runs of the module\<close>

text \<open>
  Everything that happens to the cache is a call of \<^verbatim>\<open>read\<close> or \<^verbatim>\<open>preload\<close> on some
  handle, or the settlement of a promise. The code runs on one thread, so these events
  happen one after another, starting from the empty map.
\<close>

datatype event = Read handle jsval | Preload handle jsval | Settle nat settlement

fun exec :: "event \<Rightarrow> state \<Rightarrow> state" where
  "exec (Read h input) s = snd (read h input s)"
| "exec (Preload h input) s = snd (preload h input s)"
| "exec (Settle p out) s = settle p out s"

definition run :: "event list \<Rightarrow> state" where
  "run evs = fold exec evs init"

text \<open>The key an event asks for, if it is a call on a handle.\<close>

fun requested :: "event \<Rightarrow> string option" where
  "requested (Read h input) = Some (fetchKey h @ '':'' @ toString input)"
| "requested (Preload h input) = Some (fetchKey h @ '':'' @ toString input)"
| "requested (Settle p out) = None"

text \<open>The resource object stored under a key.\<close>

definition entry :: "state \<Rightarrow> string \<Rightarrow> resource option" where
  "entry s key = (case resourceCache s key of None \<Rightarrow> None | Some a \<Rightarrow> lookup (objects s) a)"

text \<open>The loader invocations made for a key.\<close>

definition calls_for :: "state \<Rightarrow> string \<Rightarrow> call list" where
  "calls_for s key = filter (\<lambda>c. call_key c = key) (calls s)"

text \<open>
  The shape of the states that runs produce: every address in the map names an object,
  every object names a promise, an object is \<^verbatim>\<open>"pending"\<close> exactly as long as its own
  promise still holds its reaction, and the status is one of the three strings the code
  assigns.
\<close>

definition wf :: "state \<Rightarrow> bool" where
  "wf s \<longleftrightarrow>
     (\<forall>k a. resourceCache s k = Some a \<longrightarrow> a < length (objects s)) \<and>
     (\<forall>a < length (objects s). promise (objects s ! a) < length (promises s)) \<and>
     (\<forall>a < length (objects s). status (objects s ! a) = ''pending'' \<longrightarrow>
        promises s ! promise (objects s ! a) = Pending [a]) \<and>
     (\<forall>p < length (promises s). \<forall>rs. promises s ! p = Pending rs \<longrightarrow>
        (\<forall>a \<in> set rs. a < length (objects s) \<and> promise (objects s ! a) = p \<and>
           status (objects s ! a) = ''pending'')) \<and>
     (\<forall>a < length (objects s).
        status (objects s ! a) \<in> {''pending'', ''resolved'', ''error''})"

text \<open>
  The log and the map agree: a key that is absent has no loader invocation, a key that
  is present has exactly one, and that invocation returned the promise its entry holds.
\<close>

definition logged :: "state \<Rightarrow> bool" where
  "logged s \<longleftrightarrow>
     (\<forall>k. case resourceCache s k of
        None \<Rightarrow> calls_for s k = []
      | Some a \<Rightarrow> a < length (objects s) \<and>
          (\<exists>c. calls_for s k = [c] \<and> call_promise c = promise (objects s ! a)))"

section \<open>The decimal numeral of a number\<close>

lemma digit_char: "d < 10 \<Longrightarrow> digit_value (''0123456789'' ! d) = d"
proof -
  assume "d < 10"
  then have "d \<in> {0, 1, 2, 3, 4, 5, 6, 7, 8, 9}" by auto
  then show ?thesis by (auto simp: digit_value_def)
qed

lemma digit_char_in: "d < 10 \<Longrightarrow> ''0123456789'' ! d \<in> set ''0123456789''"
  by (rule nth_mem) simp

lemma digit_char_zero: "d < 10 \<Longrightarrow> ''0123456789'' ! d = CHR ''0'' \<longleftrightarrow> d = 0"
proof -
  assume "d < 10"
  then have "d \<in> {0, 1, 2, 3, 4, 5, 6, 7, 8, 9}" by auto
  then show ?thesis by auto
qed

lemma parse_decimal_snoc: "parse_decimal (ds @ [c]) = 10 * parse_decimal ds + digit_value c"
  by (simp add: parse_decimal_def)

lemma decimal_nonempty: "decimal n \<noteq> []"
  by (subst decimal.simps) simp

lemma parse_decimal_decimal: "parse_decimal (decimal n) = n"
proof (induction n rule: decimal.induct)
  case (1 n)
  show ?case
  proof (cases "n < 10")
    case True
    then show ?thesis
      by (subst decimal.simps) (simp add: parse_decimal_def digit_char)
  next
    case False
    with "1" have "parse_decimal (decimal (n div 10)) = n div 10" by simp
    with False show ?thesis
      by (subst decimal.simps) (simp add: parse_decimal_snoc digit_char)
  qed
qed

lemma decimal_digits: "list_all (\<lambda>c. c \<in> set ''0123456789'') (decimal n)"
proof (induction n rule: decimal.induct)
  case (1 n)
  show ?case
  proof (cases "n < 10")
    case True
    then show ?thesis
      using digit_char_in [of n] by (subst decimal.simps) simp
  next
    case False
    with "1" have "list_all (\<lambda>c. c \<in> set ''0123456789'') (decimal (n div 10))" by simp
    with False show ?thesis
      using digit_char_in [of "n mod 10"] by (subst decimal.simps) simp
  qed
qed

lemma hd_decimal: "hd (decimal n) = CHR ''0'' \<longleftrightarrow> n = 0"
proof (induction n rule: decimal.induct)
  case (1 n)
  show ?case
  proof (cases "n < 10")
    case True
    then show ?thesis
      using digit_char_zero [of n] by (subst decimal.simps) simp
  next
    case False
    with "1" have "hd (decimal (n div 10)) = CHR ''0'' \<longleftrightarrow> n div 10 = 0" by simp
    moreover from False have "n div 10 \<noteq> 0" by simp
    ultimately show ?thesis
      using False by (subst decimal.simps) (simp add: decimal_nonempty)
  qed
qed

lemma decimal_zero: "decimal n = ''0'' \<longleftrightarrow> n = 0"
proof
  assume "decimal n = ''0''"
  then have "hd (decimal n) = CHR ''0''" by simp
  then show "n = 0" by (simp add: hd_decimal)
next
  assume "n = 0"
  then show "decimal n = ''0''" by (simp add: decimal.simps)
qed

lemma plain_digits_decimal: "plain_digits (decimal n)"
  using decimal_digits [of n]
  by (auto simp: plain_digits_def decimal_nonempty hd_decimal decimal_zero)

lemma decimal_no_minus: "hd (decimal n) \<noteq> CHR ''-''"
proof -
  from decimal_digits [of n] decimal_nonempty [of n]
  have "hd (decimal n) \<in> set ''0123456789''"
    by (cases "decimal n") simp_all
  then show ?thesis by auto
qed

lemma numeral_value_toString: "numeral_value (toString (JNum n)) = Rep_safe_integer n"
proof (cases "Rep_safe_integer n < 0")
  case True
  then show ?thesis by (simp add: numeral_value_def parse_decimal_decimal)
next
  case False
  obtain c ds where d: "decimal (nat (Rep_safe_integer n)) = c # ds"
    using decimal_nonempty [of "nat (Rep_safe_integer n)"] by (cases "decimal (nat (Rep_safe_integer n))") auto
  with decimal_no_minus [of "nat (Rep_safe_integer n)"] have "c \<noteq> CHR ''-''" by simp
  with False d parse_decimal_decimal [of "nat (Rep_safe_integer n)"] show ?thesis
    by (simp add: numeral_value_def)
qed

lemma canonical_toString: "canonical_numeral (toString (JNum n))"
proof (cases "Rep_safe_integer n < 0")
  case True
  then have "nat (- Rep_safe_integer n) \<noteq> 0" by simp
  with True show ?thesis
    by (simp add: canonical_numeral_def plain_digits_decimal decimal_zero)
next
  case False
  obtain c ds where d: "decimal (nat (Rep_safe_integer n)) = c # ds"
    using decimal_nonempty [of "nat (Rep_safe_integer n)"] by (cases "decimal (nat (Rep_safe_integer n))") auto
  with decimal_no_minus [of "nat (Rep_safe_integer n)"] have "c \<noteq> CHR ''-''" by simp
  with False d plain_digits_decimal [of "nat (Rep_safe_integer n)"] show ?thesis
    by (simp add: canonical_numeral_def)
qed

section \<open>Basic facts about the operations\<close>

lemma accessData_present: "resourceCache s key \<noteq> None \<Longrightarrow> accessData h key input s = s"
  by (auto simp: accessData_def)

lemma accessData_absent:
  "resourceCache s key = None \<Longrightarrow>
   accessData h key input s =
     s\<lparr>resourceCache := (resourceCache s)(key \<mapsto> length (objects s)),
       objects := objects s @ [\<lparr>promise = length (promises s), status = ''pending'', rvalue = JNull\<rparr>],
       promises := promises s @ [Pending [length (objects s)]],
       calls := calls s @ [\<lparr>call_key = key, call_fetch = fetch h, call_input = input,
                            call_promise = length (promises s)\<rparr>]\<rparr>"
  by (simp add: accessData_def invoke_def promise_then_def lookup_def Let_def)

lemma length_fold_react: "length (fold (react out) rs objs) = length objs"
  by (induction rs arbitrary: objs) (simp_all add: react_def)

lemma continuation_idem: "continuation out (continuation out r) = continuation out r"
  by (cases out) simp_all

lemma promise_continuation: "promise (continuation out r) = promise r"
  by (cases out) simp_all

lemma nth_fold_react_notin:
  "a \<notin> set rs \<Longrightarrow> fold (react out) rs objs ! a = objs ! a"
  by (induction rs arbitrary: objs) (auto simp: react_def)

lemma length_react: "length (react out a objs) = length objs"
  by (simp add: react_def)

lemma nth_react:
  "b < length objs \<Longrightarrow>
   react out a objs ! b = (if b = a then continuation out (objs ! b) else objs ! b)"
  by (simp add: react_def)

lemma nth_fold_react_in:
  "a \<in> set rs \<Longrightarrow> a < length objs \<Longrightarrow>
   fold (react out) rs objs ! a = continuation out (objs ! a)"
proof (induction rs arbitrary: objs)
  case Nil
  then show ?case by simp
next
  case (Cons b rs)
  show ?case
  proof (cases "a = b")
    case True
    show ?thesis
    proof (cases "a \<in> set rs")
      case True
      with Cons.IH [of "react out b objs"] Cons.prems \<open>a = b\<close> show ?thesis
        by (simp add: length_react nth_react continuation_idem)
    next
      case False
      with Cons.prems \<open>a = b\<close> show ?thesis
        by (simp add: nth_fold_react_notin nth_react)
    qed
  next
    case False
    with Cons.prems have "a \<in> set rs" by simp
    with Cons.IH [of "react out b objs"] Cons.prems False show ?thesis
      by (simp add: length_react nth_react)
  qed
qed

lemma wf_init: "wf init"
  by (simp add: wf_def init_def)

lemma wf_accessData: "wf s \<Longrightarrow> wf (accessData h key input s)"
proof (cases "resourceCache s key = None")
  case False
  assume "wf s"
  with False show ?thesis by (simp add: accessData_present)
next
  case True
  assume w: "wf s"
  show ?thesis
    unfolding accessData_absent [OF True]
    using w unfolding wf_def
    apply (intro conjI)
    apply (auto simp: nth_append less_Suc_eq split: if_splits)
    done
qed

section \<open>The invariant holds in every run\<close>

lemma wf_settle: "wf s \<Longrightarrow> wf (settle p out s)"
proof (cases "lookup (promises s) p")
  case None
  assume "wf s"
  with None show ?thesis by (simp add: settle_def)
next
  case (Some ps)
  assume w: "wf s"
  show ?thesis
  proof (cases ps)
    case (Settled x)
    with Some w show ?thesis by (simp add: settle_def)
  next
    case (Pending rs)
    from Some Pending have p: "p < length (promises s)" "promises s ! p = Pending rs"
      by (auto simp: lookup_def split: if_splits)
    have rs: "\<And>a. a \<in> set rs \<Longrightarrow> a < length (objects s) \<and> promise (objects s ! a) = p \<and>
           status (objects s ! a) = ''pending''"
      using w p unfolding wf_def by blast
    have obj: "\<And>a. a < length (objects s) \<Longrightarrow>
        fold (react out) rs (objects s) ! a =
          (if a \<in> set rs then continuation out (objects s ! a) else objects s ! a)"
      by (simp add: nth_fold_react_in nth_fold_react_notin)
    have st: "status (continuation out r) \<in> {''resolved'', ''error''}" for r
      by (cases out) simp_all
    have eq: "settle p out s = s\<lparr>objects := fold (react out) rs (objects s),
            promises := (promises s)[p := Settled out]\<rparr>"
      using Some Pending by (simp add: settle_def)
    have inrs: "a \<in> set rs" if "a < length (objects s)" "promise (objects s ! a) = p"
       "status (objects s ! a) = ''pending''" for a
      using w that p unfolding wf_def by auto
    show ?thesis
      unfolding eq wf_def
    proof (intro conjI allI impI, goal_cases)
      case (1 k a)
      then show ?case using w by (simp add: wf_def length_fold_react)
    next
      case (2 a)
      then show ?case using w by (simp add: wf_def length_fold_react obj promise_continuation)
    next
      case (3 a)
      then have a: "a < length (objects s)" by (simp add: length_fold_react)
      from 3 a have nin: "a \<notin> set rs" using st [of "objects s ! a"] by (auto simp: obj)
      with 3 a have pend: "status (objects s ! a) = ''pending''" by (simp add: obj)
      with a nin inrs have "promise (objects s ! a) \<noteq> p" by blast
      moreover from w a pend have "promises s ! promise (objects s ! a) = Pending [a]"
        by (simp add: wf_def)
      ultimately show ?case using a nin by (simp add: obj)
    next
      case (4 q rs')
      then have q: "q < length (promises s)" "q \<noteq> p" "promises s ! q = Pending rs'"
        using p by (cases "q = p"; simp)+
      show ?case
      proof
        fix a assume "a \<in> set rs'"
        with w q have a: "a < length (objects s)" "promise (objects s ! a) = q"
           "status (objects s ! a) = ''pending''"
          unfolding wf_def by blast+
        with rs q have "a \<notin> set rs" by blast
        with a show "a < length (objects (s\<lparr>objects := fold (react out) rs (objects s),
            promises := (promises s)[p := Settled out]\<rparr>)) \<and>
          promise (objects (s\<lparr>objects := fold (react out) rs (objects s),
            promises := (promises s)[p := Settled out]\<rparr>) ! a) = q \<and>
          status (objects (s\<lparr>objects := fold (react out) rs (objects s),
            promises := (promises s)[p := Settled out]\<rparr>) ! a) = ''pending''"
          by (simp add: length_fold_react obj)
      qed
    next
      case (5 a)
      then have a: "a < length (objects s)" by (simp add: length_fold_react)
      with w have "status (objects s ! a) \<in> {''pending'', ''resolved'', ''error''}"
        by (simp add: wf_def)
      with a st [of "objects s ! a"] show ?case by (auto simp: obj)
    qed
  qed
qed

lemma wf_exec: "wf s \<Longrightarrow> wf (exec e s)"
  by (cases e) (simp_all add: read_def preload_def Let_def wf_accessData wf_settle split: option.splits)

lemma wf_fold: "wf s \<Longrightarrow> wf (fold exec evs s)"
  by (induction evs arbitrary: s) (simp_all add: wf_exec)

lemma wf_run: "wf (run evs)"
  by (simp add: run_def wf_fold wf_init)

section \<open>What an event keeps\<close>

lemma snd_read: "snd (read h x s) = accessData h (fetchKey h @ '':'' @ toString x) x s"
  by (simp add: read_def Let_def split: option.splits)

lemma snd_preload: "snd (preload h x s) = accessData h (fetchKey h @ '':'' @ toString x) x s"
  by (simp add: preload_def Let_def)

lemma snd_loadImage: "snd (loadImage src f s) = snd (read (preloadImage src f) JUndefined s)"
  by (simp add: loadImage_def split: prod.splits outcome.splits)

lemma loadImage_returns_undefined: "fst (loadImage src f s) = Return v \<Longrightarrow> v = JUndefined"
  by (auto simp: loadImage_def split: prod.splits outcome.splits)

lemma run_append: "run (evs @ evs') = fold exec evs' (run evs)"
  by (simp add: run_def)

lemma settle_cache: "resourceCache (settle p out s) = resourceCache s"
  by (simp add: settle_def split: option.splits promise_state.splits)

lemma settle_calls: "calls (settle p out s) = calls s"
  by (simp add: settle_def split: option.splits promise_state.splits)

lemma settle_length: "length (objects (settle p out s)) = length (objects s)"
  by (simp add: settle_def length_fold_react split: option.splits promise_state.splits)

lemma settle_promise:
  "a < length (objects s) \<Longrightarrow> promise (objects (settle p out s) ! a) = promise (objects s ! a)"
  by (cases "a \<in> set (case lookup (promises s) p of Some (Pending rs) \<Rightarrow> rs | _ \<Rightarrow> [])")
     (auto simp: settle_def nth_fold_react_in nth_fold_react_notin promise_continuation
           split: option.splits promise_state.splits)

lemma accessData_cache_mono:
  "resourceCache s k = Some a \<Longrightarrow> resourceCache (accessData h key x s) k = Some a"
  by (cases "resourceCache s key = None") (auto simp: accessData_absent accessData_present)

lemma accessData_objects_old:
  "a < length (objects s) \<Longrightarrow>
   a < length (objects (accessData h key x s)) \<and> objects (accessData h key x s) ! a = objects s ! a"
  by (cases "resourceCache s key = None") (auto simp: accessData_absent accessData_present nth_append)

lemma accessData_calls_for:
  "resourceCache s k = Some a \<Longrightarrow> calls_for (accessData h key x s) k = calls_for s k"
  by (cases "resourceCache s key = None") (auto simp: accessData_absent accessData_present calls_for_def)

subsection \<open>One event\<close>

lemma exec_cache_mono: "resourceCache s k = Some a \<Longrightarrow> resourceCache (exec e s) k = Some a"
  by (cases e) (simp_all add: snd_read snd_preload accessData_cache_mono settle_cache)

lemma settle_calls_for: "calls_for (settle p out s) k = calls_for s k"
  by (simp add: calls_for_def settle_calls)

lemma exec_calls_for: "resourceCache s k = Some a \<Longrightarrow> calls_for (exec e s) k = calls_for s k"
  by (cases e) (simp_all add: snd_read snd_preload accessData_calls_for settle_calls_for)

lemma exec_objects_length: "a < length (objects s) \<Longrightarrow> a < length (objects (exec e s))"
  by (cases e) (simp_all add: snd_read snd_preload accessData_objects_old settle_length)

lemma exec_promise:
  "a < length (objects s) \<Longrightarrow> promise (objects (exec e s) ! a) = promise (objects s ! a)"
  by (cases e) (simp_all add: snd_read snd_preload accessData_objects_old settle_promise)

lemma settle_terminal:
  assumes "wf s" "a < length (objects s)" "status (objects s ! a) \<noteq> ''pending''"
  shows "objects (settle p out s) ! a = objects s ! a"
proof (cases "lookup (promises s) p")
  case None
  then show ?thesis by (simp add: settle_def)
next
  case (Some ps)
  show ?thesis
  proof (cases ps)
    case (Settled x)
    with Some show ?thesis by (simp add: settle_def)
  next
    case (Pending rs)
    with Some have "p < length (promises s)" "promises s ! p = Pending rs"
      by (auto simp: lookup_def split: if_splits)
    with assms have "a \<notin> set rs" unfolding wf_def by blast
    with Some Pending show ?thesis by (simp add: settle_def nth_fold_react_notin)
  qed
qed

lemma settle_other:
  assumes "wf s" "a < length (objects s)" "promise (objects s ! a) \<noteq> p"
  shows "objects (settle p out s) ! a = objects s ! a"
proof (cases "lookup (promises s) p")
  case None
  then show ?thesis by (simp add: settle_def)
next
  case (Some ps)
  show ?thesis
  proof (cases ps)
    case (Settled x)
    with Some show ?thesis by (simp add: settle_def)
  next
    case (Pending rs)
    with Some have "p < length (promises s)" "promises s ! p = Pending rs"
      by (auto simp: lookup_def split: if_splits)
    with assms have "a \<notin> set rs" unfolding wf_def by blast
    with Some Pending show ?thesis by (simp add: settle_def nth_fold_react_notin)
  qed
qed

lemma settle_own:
  assumes "wf s" "a < length (objects s)" "status (objects s ! a) = ''pending''"
  shows "objects (settle (promise (objects s ! a)) out s) ! a = continuation out (objects s ! a)"
proof -
  from assms have p: "promise (objects s ! a) < length (promises s)"
    "promises s ! promise (objects s ! a) = Pending [a]"
    unfolding wf_def by blast+
  then have "lookup (promises s) (promise (objects s ! a)) = Some (Pending [a])"
    by (simp add: lookup_def)
  with assms(2) show ?thesis by (simp add: settle_def nth_react)
qed

lemma exec_terminal:
  "wf s \<Longrightarrow> a < length (objects s) \<Longrightarrow> status (objects s ! a) \<noteq> ''pending'' \<Longrightarrow>
   objects (exec e s) ! a = objects s ! a"
  by (cases e) (simp_all add: snd_read snd_preload accessData_objects_old settle_terminal)

lemma exec_unsettled:
  "wf s \<Longrightarrow> a < length (objects s) \<Longrightarrow> \<forall>out. e \<noteq> Settle (promise (objects s ! a)) out \<Longrightarrow>
   objects (exec e s) ! a = objects s ! a"
  by (cases e) (auto simp: snd_read snd_preload accessData_objects_old settle_other)

subsection \<open>Any number of events\<close>

lemma fold_cache_mono:
  "resourceCache s k = Some a \<Longrightarrow> resourceCache (fold exec evs s) k = Some a"
  by (induction evs arbitrary: s) (simp_all add: exec_cache_mono)

lemma fold_calls_for:
  "resourceCache s k = Some a \<Longrightarrow> calls_for (fold exec evs s) k = calls_for s k"
proof (induction evs arbitrary: s)
  case Nil
  then show ?case by simp
next
  case (Cons e evs)
  from Cons.prems have "resourceCache (exec e s) k = Some a" by (simp add: exec_cache_mono)
  with Cons.IH [of "exec e s"] Cons.prems show ?case by (simp add: exec_calls_for)
qed

lemma fold_objects_length: "a < length (objects s) \<Longrightarrow> a < length (objects (fold exec evs s))"
  by (induction evs arbitrary: s) (simp_all add: exec_objects_length)

lemma fold_promise:
  "a < length (objects s) \<Longrightarrow> promise (objects (fold exec evs s) ! a) = promise (objects s ! a)"
  by (induction evs arbitrary: s) (simp_all add: exec_objects_length exec_promise)

lemma fold_terminal:
  "wf s \<Longrightarrow> a < length (objects s) \<Longrightarrow> status (objects s ! a) \<noteq> ''pending'' \<Longrightarrow>
   objects (fold exec evs s) ! a = objects s ! a"
  by (induction evs arbitrary: s) (simp_all add: wf_exec exec_objects_length exec_terminal)

lemma fold_unsettled:
  "wf s \<Longrightarrow> a < length (objects s) \<Longrightarrow>
   \<forall>e \<in> set evs. \<forall>out. e \<noteq> Settle (promise (objects s ! a)) out \<Longrightarrow>
   objects (fold exec evs s) ! a = objects s ! a"
proof (induction evs arbitrary: s)
  case Nil
  then show ?case by simp
next
  case (Cons e evs)
  from Cons.prems have step: "objects (exec e s) ! a = objects s ! a"
    by (simp add: exec_unsettled)
  with Cons.IH [of "exec e s"] Cons.prems show ?case
    by (simp add: wf_exec exec_objects_length)
qed

section \<open>The log of loader invocations\<close>

lemma logged_init: "logged init"
  by (simp add: logged_def init_def calls_for_def)

lemma logged_accessData: "logged s \<Longrightarrow> logged (accessData h key x s)"
proof (cases "resourceCache s key = None")
  case False
  assume "logged s"
  with False show ?thesis by (simp add: accessData_present)
next
  case True
  assume l: "logged s"
  from l True have none: "calls_for s key = []"
    unfolding logged_def by (auto dest: spec [of _ key])
  show ?thesis
    unfolding logged_def
  proof
    fix k
    show "case resourceCache (accessData h key x s) k of
        None \<Rightarrow> calls_for (accessData h key x s) k = []
      | Some a \<Rightarrow> a < length (objects (accessData h key x s)) \<and>
          (\<exists>c. calls_for (accessData h key x s) k = [c] \<and>
             call_promise c = promise (objects (accessData h key x s) ! a))"
    proof (cases "k = key")
      case True
      with \<open>resourceCache s key = None\<close> none show ?thesis
        by (simp add: accessData_absent calls_for_def)
    next
      case False
      from l have "case resourceCache s k of
        None \<Rightarrow> calls_for s k = []
      | Some a \<Rightarrow> a < length (objects s) \<and>
          (\<exists>c. calls_for s k = [c] \<and> call_promise c = promise (objects s ! a))"
        unfolding logged_def by blast
      with False \<open>resourceCache s key = None\<close> show ?thesis
        by (auto simp: accessData_absent calls_for_def nth_append split: option.splits)
    qed
  qed
qed

lemma logged_settle:
  assumes "logged s"
  shows "logged (settle p out s)"
  unfolding logged_def
proof
  fix k
  from assms have l: "case resourceCache s k of
        None \<Rightarrow> calls_for s k = []
      | Some a \<Rightarrow> a < length (objects s) \<and>
          (\<exists>c. calls_for s k = [c] \<and> call_promise c = promise (objects s ! a))"
    unfolding logged_def by blast
  show "case resourceCache (settle p out s) k of
        None \<Rightarrow> calls_for (settle p out s) k = []
      | Some a \<Rightarrow> a < length (objects (settle p out s)) \<and>
          (\<exists>c. calls_for (settle p out s) k = [c] \<and>
             call_promise c = promise (objects (settle p out s) ! a))"
  proof (cases "resourceCache s k")
    case None
    with l show ?thesis by (simp add: settle_cache settle_calls_for)
  next
    case (Some a)
    with l show ?thesis
      by (simp add: settle_cache settle_calls_for settle_length settle_promise)
  qed
qed

lemma logged_exec: "logged s \<Longrightarrow> logged (exec e s)"
  by (cases e) (simp_all add: snd_read snd_preload logged_accessData logged_settle)

lemma logged_fold: "logged s \<Longrightarrow> logged (fold exec evs s)"
  by (induction evs arbitrary: s) (simp_all add: logged_exec)

lemma logged_run: "logged (run evs)"
  by (simp add: run_def logged_fold logged_init)

lemma accessData_dom:
  "dom (resourceCache (accessData h key x s)) = insert key (dom (resourceCache s))"
  by (cases "resourceCache s key = None") (auto simp: accessData_absent accessData_present)

lemma exec_dom:
  "dom (resourceCache (exec e s)) = dom (resourceCache s) \<union> set_option (requested e)"
  by (cases e) (simp_all add: snd_read snd_preload accessData_dom settle_cache)

lemma fold_dom:
  "dom (resourceCache (fold exec evs s)) =
     dom (resourceCache s) \<union> (\<Union>e \<in> set evs. set_option (requested e))"
  by (induction evs arbitrary: s) (auto simp: exec_dom)

lemma run_dom: "dom (resourceCache (run evs)) = (\<Union>e \<in> set evs. set_option (requested e))"
  by (simp add: run_def fold_dom init_def)

lemma run_present_iff:
  "resourceCache (run evs) k \<noteq> None \<longleftrightarrow> Some k \<in> requested ` set evs"
proof -
  have "resourceCache (run evs) k \<noteq> None \<longleftrightarrow> k \<in> dom (resourceCache (run evs))"
    by (simp add: dom_def)
  also have "\<dots> \<longleftrightarrow> k \<in> (\<Union>e \<in> set evs. set_option (requested e))"
    by (simp only: run_dom)
  also have "\<dots> \<longleftrightarrow> Some k \<in> requested ` set evs"
  proof
    assume "k \<in> (\<Union>e \<in> set evs. set_option (requested e))"
    then obtain e where "e \<in> set evs" "k \<in> set_option (requested e)" by blast
    then have "e \<in> set evs" "requested e = Some k" by simp_all
    then show "Some k \<in> requested ` set evs" by force
  next
    assume "Some k \<in> requested ` set evs"
    then obtain e where "e \<in> set evs" "requested e = Some k" by force
    then show "k \<in> (\<Union>e \<in> set evs. set_option (requested e))" by force
  qed
  finally show ?thesis .
qed

lemma entry_SomeD:
  "entry s k = Some r \<Longrightarrow> \<exists>a. resourceCache s k = Some a \<and> a < length (objects s) \<and> objects s ! a = r"
  by (auto simp: entry_def lookup_def split: option.splits if_splits)

lemma entry_SomeI:
  "resourceCache s k = Some a \<Longrightarrow> a < length (objects s) \<Longrightarrow> entry s k = Some (objects s ! a)"
  by (simp add: entry_def lookup_def)

lemma read_entry:
  "entry s (fetchKey h @ '':'' @ toString x) = Some r \<Longrightarrow>
   read h x s =
     (if status r = ''pending'' then Throw (JPromise (promise r))
      else if status r = ''resolved'' then Return (rvalue r)
      else if status r = ''rejected'' then Throw (rvalue r)
      else Return JUndefined, s)"
  by (auto simp: read_def Let_def entry_def accessData_def split: option.splits)

text \<open>
  In a state of a run the two lookups of \<^verbatim>\<open>read\<close> succeed, so the \<^verbatim>\<open>TypeError\<close>
  outcome does not occur.
\<close>

lemma read_no_TypeError: "wf s \<Longrightarrow> fst (read h x s) \<noteq> TypeError"
proof -
  let ?k = "fetchKey h @ '':'' @ toString x"
  assume "wf s"
  then have w: "wf (accessData h ?k x s)" by (rule wf_accessData)
  have "?k \<in> dom (resourceCache (accessData h ?k x s))" by (simp add: accessData_dom)
  then obtain a where a: "resourceCache (accessData h ?k x s) ?k = Some a" by auto
  with w have "a < length (objects (accessData h ?k x s))" unfolding wf_def by blast
  with a show ?thesis by (simp add: read_def Let_def lookup_def)
qed

lemma entry_stable:
  assumes "entry (run evs) k = Some r"
  shows "\<exists>a. resourceCache (run evs) k = Some a \<and> a < length (objects (run evs)) \<and>
     objects (run evs) ! a = r \<and>
     resourceCache (run (evs @ evs')) k = Some a \<and> a < length (objects (run (evs @ evs'))) \<and>
     entry (run (evs @ evs')) k = Some (objects (run (evs @ evs')) ! a)"
proof -
  from assms obtain a where a: "resourceCache (run evs) k = Some a"
    "a < length (objects (run evs))" "objects (run evs) ! a = r"
    by (auto dest: entry_SomeD)
  have c: "resourceCache (run (evs @ evs')) k = Some a"
    using a(1) by (simp add: run_append fold_cache_mono)
  have l: "a < length (objects (run (evs @ evs')))"
    using a(2) by (simp add: run_append fold_objects_length)
  from c l have "entry (run (evs @ evs')) k = Some (objects (run (evs @ evs')) ! a)"
    by (rule entry_SomeI)
  with a c l show ?thesis by blast
qed

section \<open>The properties of the specification\<close>

text \<open>The definitions a concrete run is evaluated with.\<close>

lemmas eval_defs = run_def init_def read_def preload_def accessData_def invoke_def promise_then_def
  settle_def react_def lookup_def entry_def calls_for_def createResource_def Let_def decimal.simps
  Abs_safe_integer_inverse

text \<open>
  Claim C1 says that once the load of a key has failed with \<open>e\<close>, every later
  \<^verbatim>\<open>read\<close> of the key throws \<open>e\<close>. The rejection continuation stores the status
  \<^verbatim>\<open>"error"\<close>, the switch of \<^verbatim>\<open>read\<close> tests for \<^verbatim>\<open>"rejected"\<close>, and the
  read ends in the default branch: for the resource \<^verbatim>\<open>createResource("comments", loader)\<close>
  whose loader rejects with \<^verbatim>\<open>"network error"\<close> for the input \<open>42\<close>, the
  read after the settlement returns \<^verbatim>\<open>undefined\<close> and throws nothing.
\<close>

theorem read_after_rejection_returns_undefined:
  "read (createResource ''comments'' 0) (JNum (Abs_safe_integer 42))
     (run [Read (createResource ''comments'' 0) (JNum (Abs_safe_integer 42)),
           Settle 0 (Reject (JStr ''network error''))]) =
   (Return JUndefined,
    run [Read (createResource ''comments'' 0) (JNum (Abs_safe_integer 42)),
         Settle 0 (Reject (JStr ''network error''))])"
  by (simp add: eval_defs)

text \<open>
  Claim C6: \<^verbatim>\<open>read\<close> and \<^verbatim>\<open>preload\<close> of the handle made from the family name
  \<open>fk\<close> both work on the key \<open>fk\<close>, then a colon, then the string form of the input: that
  key, and no other, is what either call adds to the keys of the map, in every state.
  The string form is the one of a template literal: a string is itself,
  \<^verbatim>\<open>undefined\<close>, \<^verbatim>\<open>null\<close> and the booleans are their names, and a number is the
  canonical decimal numeral whose value is that number.
\<close>

theorem key_is_family_colon_input:
  "dom (resourceCache (snd (read (createResource fk f) x s))) =
     insert (fk @ '':'' @ toString x) (dom (resourceCache s)) \<and>
   dom (resourceCache (snd (preload (createResource fk f) x s))) =
     insert (fk @ '':'' @ toString x) (dom (resourceCache s)) \<and>
   toString (JStr str) = str \<and>
   toString JUndefined = ''undefined'' \<and>
   toString JNull = ''null'' \<and>
   toString (JBool True) = ''true'' \<and>
   toString (JBool False) = ''false'' \<and>
   numeral_value (toString (JNum n)) = Rep_safe_integer n \<and>
   canonical_numeral (toString (JNum n))"
proof (intro conjI)
  show "dom (resourceCache (snd (read (createResource fk f) x s))) =
     insert (fk @ '':'' @ toString x) (dom (resourceCache s))"
    by (simp add: snd_read accessData_dom createResource_def)
  show "dom (resourceCache (snd (preload (createResource fk f) x s))) =
     insert (fk @ '':'' @ toString x) (dom (resourceCache s))"
    by (simp add: snd_preload accessData_dom createResource_def)
  show "numeral_value (toString (JNum n)) = Rep_safe_integer n"
    by (rule numeral_value_toString)
  show "canonical_numeral (toString (JNum n))"
    by (rule canonical_toString)
qed simp_all

theorem key_is_family_colon_input_witness:
  "dom (resourceCache (snd (read (createResource ''comments'' 0)
      (JNum (Abs_safe_integer 42)) init))) = {''comments:42''} \<and>
   dom (resourceCache (snd (preload (createResource ''comments'' 0)
      (JNum (Abs_safe_integer 42)) init))) = {''comments:42''} \<and>
   toString (JNum (Abs_safe_integer 42)) = ''42'' \<and>
   numeral_value ''42'' = 42 \<and>
   canonical_numeral ''42'' \<and>
   toString (JNum (Abs_safe_integer (- 9007199254740991))) = ''-9007199254740991'' \<and>
   numeral_value ''-9007199254740991'' = - 9007199254740991 \<and>
   canonical_numeral ''-9007199254740991''"
  using key_is_family_colon_input [of "''comments''" 0 "JNum (Abs_safe_integer 42)" init
      "''posts''" "Abs_safe_integer 42"]
    key_is_family_colon_input [of "''comments''" 0 "JNum (Abs_safe_integer 42)" init
      "''posts''" "Abs_safe_integer (- 9007199254740991)"]
  by (simp add: init_def decimal.simps Abs_safe_integer_inverse)

text \<open>
  Claim C7: in every state, whatever the entry of the key holds, \<^verbatim>\<open>preload\<close> returns
  normally with no result (\<^verbatim>\<open>undefined\<close>); when the key has no entry it creates a
  pending one and invokes the loader once, and when the key has an entry it changes
  nothing.
\<close>

theorem preload_surfaces_nothing:
  "fst (preload h x s) = Return JUndefined \<and>
   (resourceCache s (fetchKey h @ '':'' @ toString x) = None \<longrightarrow>
      entry (snd (preload h x s)) (fetchKey h @ '':'' @ toString x) =
        Some \<lparr>promise = length (promises s), status = ''pending'', rvalue = JNull\<rparr> \<and>
      calls (snd (preload h x s)) =
        calls s @ [\<lparr>call_key = fetchKey h @ '':'' @ toString x, call_fetch = fetch h,
                    call_input = x, call_promise = length (promises s)\<rparr>]) \<and>
   (resourceCache s (fetchKey h @ '':'' @ toString x) \<noteq> None \<longrightarrow> snd (preload h x s) = s)"
proof (intro conjI impI)
  show "fst (preload h x s) = Return JUndefined"
    by (simp add: preload_def Let_def)
next
  assume "resourceCache s (fetchKey h @ '':'' @ toString x) = None"
  then show "entry (snd (preload h x s)) (fetchKey h @ '':'' @ toString x) =
        Some \<lparr>promise = length (promises s), status = ''pending'', rvalue = JNull\<rparr>"
    by (simp add: snd_preload accessData_absent entry_def lookup_def)
next
  assume "resourceCache s (fetchKey h @ '':'' @ toString x) = None"
  then show "calls (snd (preload h x s)) =
        calls s @ [\<lparr>call_key = fetchKey h @ '':'' @ toString x, call_fetch = fetch h,
                    call_input = x, call_promise = length (promises s)\<rparr>]"
    by (simp add: snd_preload accessData_absent)
next
  assume "resourceCache s (fetchKey h @ '':'' @ toString x) \<noteq> None"
  then show "snd (preload h x s) = s"
    unfolding snd_preload by (rule accessData_present)
qed

theorem preload_surfaces_nothing_witness:
  "resourceCache init ''user:1:undefined'' = None \<and>
   preload (createResource ''user:1'' 0) JUndefined init =
     (Return JUndefined, run [Preload (createResource ''user:1'' 0) JUndefined]) \<and>
   entry (run [Preload (createResource ''user:1'' 0) JUndefined]) ''user:1:undefined'' =
     Some \<lparr>promise = 0, status = ''pending'', rvalue = JNull\<rparr> \<and>
   resourceCache (run [Preload (createResource ''user:1'' 0) JUndefined]) ''user:1:undefined''
     \<noteq> None \<and>
   preload (createResource ''user:1'' 0) JUndefined
       (run [Preload (createResource ''user:1'' 0) JUndefined]) =
     (Return JUndefined, run [Preload (createResource ''user:1'' 0) JUndefined])"
  using preload_surfaces_nothing [of "createResource ''user:1'' 0" JUndefined init]
    preload_surfaces_nothing [of "createResource ''user:1'' 0" JUndefined
      "run [Preload (createResource ''user:1'' 0) JUndefined]"]
  by (simp add: eval_defs)

text \<open>
  Claim C8: a \<^verbatim>\<open>read\<close> whose key already has an entry leaves the whole state as it
  is; a \<^verbatim>\<open>read\<close> whose key has none binds that key to a new object, keeps the binding
  of every other key and every object that existed, and logs one loader invocation.
\<close>

theorem read_frame:
  "(resourceCache s (fetchKey h @ '':'' @ toString x) \<noteq> None \<longrightarrow> snd (read h x s) = s) \<and>
   (resourceCache s (fetchKey h @ '':'' @ toString x) = None \<longrightarrow>
      (\<forall>k. k \<noteq> fetchKey h @ '':'' @ toString x \<longrightarrow>
         resourceCache (snd (read h x s)) k = resourceCache s k) \<and>
      resourceCache (snd (read h x s)) (fetchKey h @ '':'' @ toString x) =
        Some (length (objects s)) \<and>
      objects (snd (read h x s)) =
        objects s @ [\<lparr>promise = length (promises s), status = ''pending'', rvalue = JNull\<rparr>] \<and>
      calls (snd (read h x s)) =
        calls s @ [\<lparr>call_key = fetchKey h @ '':'' @ toString x, call_fetch = fetch h,
                    call_input = x, call_promise = length (promises s)\<rparr>])"
proof (intro conjI impI)
  assume "resourceCache s (fetchKey h @ '':'' @ toString x) \<noteq> None"
  then show "snd (read h x s) = s"
    unfolding snd_read by (rule accessData_present)
next
  assume a: "resourceCache s (fetchKey h @ '':'' @ toString x) = None"
  show "\<forall>k. k \<noteq> fetchKey h @ '':'' @ toString x \<longrightarrow>
         resourceCache (snd (read h x s)) k = resourceCache s k"
    using a by (simp add: snd_read accessData_absent)
  show "resourceCache (snd (read h x s)) (fetchKey h @ '':'' @ toString x) =
        Some (length (objects s))"
    using a by (simp add: snd_read accessData_absent)
  show "objects (snd (read h x s)) =
        objects s @ [\<lparr>promise = length (promises s), status = ''pending'', rvalue = JNull\<rparr>]"
    using a by (simp add: snd_read accessData_absent)
  show "calls (snd (read h x s)) =
        calls s @ [\<lparr>call_key = fetchKey h @ '':'' @ toString x, call_fetch = fetch h,
                    call_input = x, call_promise = length (promises s)\<rparr>]"
    using a by (simp add: snd_read accessData_absent)
qed

theorem read_frame_witness:
  "resourceCache (run [Read (createResource ''friends'' 2) JUndefined]) ''friends:undefined''
     \<noteq> None \<and>
   snd (read (createResource ''friends'' 2) JUndefined
          (run [Read (createResource ''friends'' 2) JUndefined])) =
     run [Read (createResource ''friends'' 2) JUndefined] \<and>
   resourceCache (run [Read (createResource ''friends'' 2) JUndefined]) ''comments:7'' = None \<and>
   ''friends:undefined'' \<noteq> ''comments:7'' \<and>
   resourceCache (snd (read (createResource ''comments'' 3) (JNum (Abs_safe_integer 7))
          (run [Read (createResource ''friends'' 2) JUndefined]))) ''friends:undefined'' =
     resourceCache (run [Read (createResource ''friends'' 2) JUndefined]) ''friends:undefined'' \<and>
   objects (snd (read (createResource ''comments'' 3) (JNum (Abs_safe_integer 7))
          (run [Read (createResource ''friends'' 2) JUndefined]))) =
     objects (run [Read (createResource ''friends'' 2) JUndefined]) @
       [\<lparr>promise = 1, status = ''pending'', rvalue = JNull\<rparr>]"
  using read_frame [of "run [Read (createResource ''friends'' 2) JUndefined]"
      "createResource ''friends'' 2" JUndefined]
    read_frame [of "run [Read (createResource ''friends'' 2) JUndefined]"
      "createResource ''comments'' 3" "JNum (Abs_safe_integer 7)"]
  by (simp add: eval_defs)

text \<open>
  Claim C3: the \<^verbatim>\<open>status\<close> of an entry only moves from pending to resolved or from
  pending to rejected, where the rejected state is the one the rejection continuation
  stores, the string \<^verbatim>\<open>"error"\<close>. Whatever events follow, the key keeps its entry with
  the same promise; an entry found pending is later pending, resolved or failed, and an
  entry found resolved or failed is later the very same record, so it neither returns
  to pending nor takes the other transition nor changes its stored outcome.
\<close>

theorem status_transitions:
  assumes "entry (run evs) k = Some r"
  shows "status r \<in> {''pending'', ''resolved'', ''error''} \<and>
    (\<exists>r'. entry (run (evs @ evs')) k = Some r' \<and> promise r' = promise r \<and>
       (if status r = ''pending'' then status r' \<in> {''pending'', ''resolved'', ''error''}
        else r' = r))"
proof -
  from entry_stable [OF assms, of evs'] obtain a where
    a: "resourceCache (run evs) k = Some a" "a < length (objects (run evs))"
       "objects (run evs) ! a = r"
       "a < length (objects (run (evs @ evs')))"
       "entry (run (evs @ evs')) k = Some (objects (run (evs @ evs')) ! a)"
    by blast
  let ?r' = "objects (run (evs @ evs')) ! a"
  have s: "status r \<in> {''pending'', ''resolved'', ''error''}"
    using wf_run [of evs] a(2,3) unfolding wf_def by blast
  have s': "status ?r' \<in> {''pending'', ''resolved'', ''error''}"
    using wf_run [of "evs @ evs'"] a(4) unfolding wf_def by blast
  have p: "promise ?r' = promise r"
    using a(2,3) by (simp add: run_append fold_promise)
  have t: "?r' = r" if "status r \<noteq> ''pending''"
    using that a(2,3) wf_run [of evs] by (simp add: run_append fold_terminal)
  from s s' p t a(5) show ?thesis by auto
qed

theorem status_transitions_witness:
  "entry (run [Read (createResource ''posts:1'' 0) (JStr '''')]) ''posts:1:'' =
     Some \<lparr>promise = 0, status = ''pending'', rvalue = JNull\<rparr> \<and>
   entry (run ([Read (createResource ''posts:1'' 0) (JStr '''')] @
               [Settle 0 (Fulfil (JStr ''a'')), Settle 0 (Reject (JStr ''b''))])) ''posts:1:'' =
     Some \<lparr>promise = 0, status = ''resolved'', rvalue = JStr ''a''\<rparr> \<and>
   (\<exists>r'. entry (run ([Read (createResource ''posts:1'' 0) (JStr '''')] @
               [Settle 0 (Fulfil (JStr ''a'')), Settle 0 (Reject (JStr ''b''))])) ''posts:1:'' =
           Some r' \<and> promise r' = 0 \<and> status r' \<in> {''pending'', ''resolved'', ''error''})"
  using status_transitions [of "[Read (createResource ''posts:1'' 0) (JStr '''')]" "''posts:1:''"
      "\<lparr>promise = 0, status = ''pending'', rvalue = JNull\<rparr>"
      "[Settle 0 (Fulfil (JStr ''a'')), Settle 0 (Reject (JStr ''b''))]"]
  by (simp add: eval_defs)

text \<open>
  Claim C2: a key bound to an object stays bound to that object in every later state;
  the number of loader invocations made for a key is one if \<^verbatim>\<open>read\<close> or
  \<^verbatim>\<open>preload\<close> has been called for it, however often and whether or not the load has
  settled, and zero otherwise; and after such a call a further \<^verbatim>\<open>read\<close> or
  \<^verbatim>\<open>preload\<close> with the same handle and input changes nothing.
\<close>

theorem one_entry_one_load:
  "(resourceCache (run evs) k = Some a \<longrightarrow> resourceCache (run (evs @ evs')) k = Some a) \<and>
   length (calls_for (run evs) k) = (if Some k \<in> requested ` set evs then 1 else 0) \<and>
   (Read h x \<in> set evs \<or> Preload h x \<in> set evs \<longrightarrow>
      length (calls_for (run evs) (fetchKey h @ '':'' @ toString x)) = 1 \<and>
      snd (read h x (run evs)) = run evs \<and> snd (preload h x (run evs)) = run evs)"
proof (intro conjI impI)
  assume "resourceCache (run evs) k = Some a"
  then show "resourceCache (run (evs @ evs')) k = Some a"
    by (simp add: run_append fold_cache_mono)
next
  have l: "case resourceCache (run evs) k of
        None \<Rightarrow> calls_for (run evs) k = []
      | Some a \<Rightarrow> a < length (objects (run evs)) \<and>
          (\<exists>c. calls_for (run evs) k = [c] \<and>
             call_promise c = promise (objects (run evs) ! a))" for k
    using logged_run [of evs] unfolding logged_def by blast
  show n: "length (calls_for (run evs) k) = (if Some k \<in> requested ` set evs then 1 else 0)" for k
  proof (cases "resourceCache (run evs) k")
    case None
    with l [of k] have "calls_for (run evs) k = []" by simp
    moreover from None have "Some k \<notin> requested ` set evs"
      using run_present_iff [of evs k] by simp
    ultimately show ?thesis by simp
  next
    case (Some a)
    with l [of k] have "length (calls_for (run evs) k) = 1" by auto
    moreover from Some have "Some k \<in> requested ` set evs"
      using run_present_iff [of evs k] by simp
    ultimately show ?thesis by simp
  qed
  assume "Read h x \<in> set evs \<or> Preload h x \<in> set evs"
  then have r: "Some (fetchKey h @ '':'' @ toString x) \<in> requested ` set evs"
    by (auto simp: image_iff intro: bexI [of _ "Read h x"] bexI [of _ "Preload h x"])
  then show "length (calls_for (run evs) (fetchKey h @ '':'' @ toString x)) = 1"
    by (simp add: n)
  from r have p: "resourceCache (run evs) (fetchKey h @ '':'' @ toString x) \<noteq> None"
    by (simp only: run_present_iff)
  show "snd (read h x (run evs)) = run evs"
    unfolding snd_read using p by (rule accessData_present)
  show "snd (preload h x (run evs)) = run evs"
    unfolding snd_preload using p by (rule accessData_present)
qed

theorem one_entry_one_load_witness:
  "resourceCache (run [Read (createResource ''x'' 0) (JStr ''y''),
                       Preload (createResource ''x'' 0) (JStr ''y'')]) ''x:y'' = Some 0 \<and>
   resourceCache (run ([Read (createResource ''x'' 0) (JStr ''y''),
                        Preload (createResource ''x'' 0) (JStr ''y'')] @
                       [Settle 0 (Fulfil JNull), Read (createResource ''x'' 0) (JStr ''y'')]))
      ''x:y'' = Some 0 \<and>
   Read (createResource ''x'' 0) (JStr ''y'') \<in>
     set [Read (createResource ''x'' 0) (JStr ''y''), Preload (createResource ''x'' 0) (JStr ''y'')] \<and>
   length (calls_for (run [Read (createResource ''x'' 0) (JStr ''y''),
                           Preload (createResource ''x'' 0) (JStr ''y'')]) ''x:y'') = 1"
  using one_entry_one_load [of "[Read (createResource ''x'' 0) (JStr ''y''),
        Preload (createResource ''x'' 0) (JStr ''y'')]" "''x:y''" 0
      "[Settle 0 (Fulfil JNull), Read (createResource ''x'' 0) (JStr ''y'')]"
      "createResource ''x'' 0" "JStr ''y''"]
  by (simp add: eval_defs)

text \<open>
  Claim C4: while the entry of a key is pending, \<^verbatim>\<open>read\<close> throws the promise stored
  in the entry, which is the promise the one loader invocation for the key returned, and
  it keeps throwing that same promise after any events that do not settle it. The
  first \<^verbatim>\<open>read\<close> of a key throws the promise its loader call has just returned and
  leaves a pending entry holding it, so a second \<^verbatim>\<open>read\<close> before the settlement
  throws the same one.
\<close>

theorem read_pending_throws_the_promise:
  "(entry (run evs) (fetchKey h @ '':'' @ toString x) = Some r \<and> status r = ''pending'' \<and>
    (\<forall>e \<in> set evs'. \<forall>out. e \<noteq> Settle (promise r) out) \<longrightarrow>
      read h x (run (evs @ evs')) = (Throw (JPromise (promise r)), run (evs @ evs')) \<and>
      (\<exists>c. calls_for (run (evs @ evs')) (fetchKey h @ '':'' @ toString x) = [c] \<and>
           call_promise c = promise r)) \<and>
   (resourceCache (run evs) (fetchKey h @ '':'' @ toString x) = None \<longrightarrow>
      fst (read h x (run evs)) = Throw (JPromise (length (promises (run evs)))) \<and>
      entry (run (evs @ [Read h x])) (fetchKey h @ '':'' @ toString x) =
        Some \<lparr>promise = length (promises (run evs)), status = ''pending'', rvalue = JNull\<rparr>)"
proof (intro conjI impI)
  let ?k = "fetchKey h @ '':'' @ toString x"
  assume "entry (run evs) ?k = Some r \<and> status r = ''pending'' \<and>
    (\<forall>e \<in> set evs'. \<forall>out. e \<noteq> Settle (promise r) out)"
  then have e: "entry (run evs) ?k = Some r" and st: "status r = ''pending''"
    and ns: "\<forall>e \<in> set evs'. \<forall>out. e \<noteq> Settle (promise r) out"
    by simp_all
  from entry_stable [OF e, of evs'] obtain a where
    a: "resourceCache (run evs) ?k = Some a" "a < length (objects (run evs))"
       "objects (run evs) ! a = r"
       "resourceCache (run (evs @ evs')) ?k = Some a"
       "a < length (objects (run (evs @ evs')))"
       "entry (run (evs @ evs')) ?k = Some (objects (run (evs @ evs')) ! a)"
    by blast
  have same: "objects (run (evs @ evs')) ! a = r"
    using wf_run [of evs] a(2,3) ns by (simp add: run_append fold_unsettled)
  with a(6) have "entry (run (evs @ evs')) ?k = Some r" by simp
  then show "read h x (run (evs @ evs')) = (Throw (JPromise (promise r)), run (evs @ evs'))"
    using st by (simp add: read_entry)
  have "case resourceCache (run (evs @ evs')) ?k of
        None \<Rightarrow> calls_for (run (evs @ evs')) ?k = []
      | Some a \<Rightarrow> a < length (objects (run (evs @ evs'))) \<and>
          (\<exists>c. calls_for (run (evs @ evs')) ?k = [c] \<and>
             call_promise c = promise (objects (run (evs @ evs')) ! a))"
    using logged_run [of "evs @ evs'"] unfolding logged_def by blast
  with a(4) same show "\<exists>c. calls_for (run (evs @ evs')) ?k = [c] \<and> call_promise c = promise r"
    by simp
next
  let ?k = "fetchKey h @ '':'' @ toString x"
  assume n: "resourceCache (run evs) ?k = None"
  then show "fst (read h x (run evs)) = Throw (JPromise (length (promises (run evs))))"
    by (simp add: read_def Let_def accessData_absent lookup_def)
  from n show "entry (run (evs @ [Read h x])) ?k =
        Some \<lparr>promise = length (promises (run evs)), status = ''pending'', rvalue = JNull\<rparr>"
    by (simp add: run_append snd_read accessData_absent entry_def lookup_def)
qed

theorem read_pending_throws_the_promise_witness:
  "resourceCache (run []) ''x:undefined'' = None \<and>
   fst (read (createResource ''x'' 0) JUndefined (run [])) = Throw (JPromise 0) \<and>
   entry (run [Read (createResource ''x'' 0) JUndefined]) ''x:undefined'' =
     Some \<lparr>promise = 0, status = ''pending'', rvalue = JNull\<rparr> \<and>
   Settle 1 (Fulfil JNull) \<noteq> Settle 0 (Fulfil JNull) \<and>
   read (createResource ''x'' 0) JUndefined
     (run ([Read (createResource ''x'' 0) JUndefined] @
           [Read (createResource ''y'' 1) JUndefined, Settle 1 (Fulfil JNull)])) =
     (Throw (JPromise 0),
      run ([Read (createResource ''x'' 0) JUndefined] @
           [Read (createResource ''y'' 1) JUndefined, Settle 1 (Fulfil JNull)]))"
  using read_pending_throws_the_promise [of "[]" "createResource ''x'' 0" JUndefined
      "\<lparr>promise = 0, status = ''pending'', rvalue = JNull\<rparr>" "[]"]
    read_pending_throws_the_promise [of "[Read (createResource ''x'' 0) JUndefined]"
      "createResource ''x'' 0" JUndefined
      "\<lparr>promise = 0, status = ''pending'', rvalue = JNull\<rparr>"
      "[Read (createResource ''y'' 1) JUndefined, Settle 1 (Fulfil JNull)]"]
  by (simp add: eval_defs)

text \<open>
  Claim C5: once the entry of a key is resolved with a value, every later \<^verbatim>\<open>read\<close>
  of the key returns that value and leaves the state, hence the log of loader
  invocations, unchanged; and an entry is resolved with \<open>v\<close> as soon as its promise is
  fulfilled with \<open>v\<close>.
\<close>

theorem read_resolved_returns_value:
  assumes "entry (run evs) (fetchKey h @ '':'' @ toString x) = Some r"
  shows "(status r = ''resolved'' \<longrightarrow>
      read h x (run (evs @ evs')) = (Return (rvalue r), run (evs @ evs'))) \<and>
    (status r = ''pending'' \<longrightarrow>
      read h x (run (evs @ Settle (promise r) (Fulfil v) # evs')) =
        (Return v, run (evs @ Settle (promise r) (Fulfil v) # evs')))"
proof (intro conjI impI)
  let ?k = "fetchKey h @ '':'' @ toString x"
  assume st: "status r = ''resolved''"
  from entry_stable [OF assms, of evs'] obtain a where
    a: "a < length (objects (run evs))" "objects (run evs) ! a = r"
       "entry (run (evs @ evs')) ?k = Some (objects (run (evs @ evs')) ! a)"
    by blast
  from st a(1,2) have "objects (run (evs @ evs')) ! a = r"
    using wf_run [of evs] by (simp add: run_append fold_terminal)
  with a(3) have "entry (run (evs @ evs')) ?k = Some r" by simp
  then show "read h x (run (evs @ evs')) = (Return (rvalue r), run (evs @ evs'))"
    using st by (simp add: read_entry)
next
  let ?k = "fetchKey h @ '':'' @ toString x"
  let ?evs = "evs @ [Settle (promise r) (Fulfil v)]"
  assume st: "status r = ''pending''"
  from entry_stable [OF assms, of "[Settle (promise r) (Fulfil v)]"] obtain a where
    a: "a < length (objects (run evs))" "objects (run evs) ! a = r"
       "resourceCache (run ?evs) ?k = Some a" "a < length (objects (run ?evs))"
    by blast
  have now: "objects (run ?evs) ! a = r\<lparr>status := ''resolved'', rvalue := v\<rparr>"
    using settle_own [OF wf_run [of evs] a(1), of "Fulfil v"] a(2) st
    by (simp add: run_append)
  have "resourceCache (run (?evs @ evs')) ?k = Some a"
    using a(3) by (simp only: run_append [of ?evs evs'] fold_cache_mono)
  moreover have "a < length (objects (run (?evs @ evs')))"
    using a(4) by (simp only: run_append [of ?evs evs'] fold_objects_length)
  moreover have "objects (run (?evs @ evs')) ! a = r\<lparr>status := ''resolved'', rvalue := v\<rparr>"
    using wf_run [of ?evs] a(4) now
    by (simp only: run_append [of ?evs evs']) (simp add: fold_terminal)
  ultimately have "entry (run (?evs @ evs')) ?k = Some (r\<lparr>status := ''resolved'', rvalue := v\<rparr>)"
    by (simp add: entry_def lookup_def)
  then have "read h x (run (?evs @ evs')) = (Return v, run (?evs @ evs'))"
    by (simp add: read_entry)
  then show "read h x (run (evs @ Settle (promise r) (Fulfil v) # evs')) =
        (Return v, run (evs @ Settle (promise r) (Fulfil v) # evs'))"
    by simp
qed

theorem read_resolved_returns_value_witness:
  "entry (run [Read (createResource ''posts:1'' 0) (JStr '''')]) ''posts:1:'' =
     Some \<lparr>promise = 0, status = ''pending'', rvalue = JNull\<rparr> \<and>
   read (createResource ''posts:1'' 0) (JStr '''')
     (run ([Read (createResource ''posts:1'' 0) (JStr '''')] @
        Settle 0 (Fulfil (JStr ''ab'')) # [Settle 0 (Reject JNull)])) =
     (Return (JStr ''ab''),
      run ([Read (createResource ''posts:1'' 0) (JStr '''')] @
        Settle 0 (Fulfil (JStr ''ab'')) # [Settle 0 (Reject JNull)])) \<and>
   entry (run [Read (createResource ''posts:1'' 0) (JStr ''''), Settle 0 (Fulfil (JStr ''ab''))])
     ''posts:1:'' = Some \<lparr>promise = 0, status = ''resolved'', rvalue = JStr ''ab''\<rparr> \<and>
   read (createResource ''posts:1'' 0) (JStr '''')
     (run ([Read (createResource ''posts:1'' 0) (JStr ''''), Settle 0 (Fulfil (JStr ''ab''))] @
        [Read (createResource ''posts:1'' 0) (JStr '''')])) =
     (Return (JStr ''ab''),
      run ([Read (createResource ''posts:1'' 0) (JStr ''''), Settle 0 (Fulfil (JStr ''ab''))] @
        [Read (createResource ''posts:1'' 0) (JStr '''')]))"
  using read_resolved_returns_value [of "[Read (createResource ''posts:1'' 0) (JStr '''')]"
      "createResource ''posts:1'' 0" "JStr ''''"
      "\<lparr>promise = 0, status = ''pending'', rvalue = JNull\<rparr>" "[Settle 0 (Reject JNull)]"
      "JStr ''ab''"]
    read_resolved_returns_value [of
      "[Read (createResource ''posts:1'' 0) (JStr ''''), Settle 0 (Fulfil (JStr ''ab''))]"
      "createResource ''posts:1'' 0" "JStr ''''"
      "\<lparr>promise = 0, status = ''resolved'', rvalue = JStr ''ab''\<rparr>"
      "[Read (createResource ''posts:1'' 0) (JStr '''')]" JNull]
  by (simp add: eval_defs)

text \<open>
  Claim C9: in every state a run can reach no object has the status \<^verbatim>\<open>"rejected"\<close>;
  the rejection of the promise of a pending entry stores the status \<^verbatim>\<open>"error"\<close> with
  the failure value; and \<^verbatim>\<open>read\<close> of an entry with the status \<^verbatim>\<open>"error"\<close> ends in
  the default branch, returning \<^verbatim>\<open>undefined\<close>.
\<close>

theorem rejected_status_never_stored:
  "(\<forall>r \<in> set (objects (run evs)). status r \<noteq> ''rejected'') \<and>
   (entry (run evs) (fetchKey h @ '':'' @ toString x) = Some r \<and> status r = ''pending'' \<longrightarrow>
      entry (run (evs @ [Settle (promise r) (Reject e)])) (fetchKey h @ '':'' @ toString x) =
        Some (r\<lparr>status := ''error'', rvalue := e\<rparr>)) \<and>
   (entry (run evs) (fetchKey h @ '':'' @ toString x) = Some r \<and> status r = ''error'' \<longrightarrow>
      read h x (run evs) = (Return JUndefined, run evs))"
proof (intro conjI impI ballI)
  fix r' assume "r' \<in> set (objects (run evs))"
  then obtain a where "a < length (objects (run evs))" "objects (run evs) ! a = r'"
    by (auto simp: in_set_conv_nth)
  with wf_run [of evs] have "status r' \<in> {''pending'', ''resolved'', ''error''}"
    unfolding wf_def by blast
  then show "status r' \<noteq> ''rejected''" by auto
next
  let ?k = "fetchKey h @ '':'' @ toString x"
  assume "entry (run evs) ?k = Some r \<and> status r = ''pending''"
  then have en: "entry (run evs) ?k = Some r" and st: "status r = ''pending''" by simp_all
  from entry_stable [OF en, of "[Settle (promise r) (Reject e)]"] obtain a where
    a: "a < length (objects (run evs))" "objects (run evs) ! a = r"
       "entry (run (evs @ [Settle (promise r) (Reject e)])) ?k =
          Some (objects (run (evs @ [Settle (promise r) (Reject e)])) ! a)"
    by blast
  have "objects (run (evs @ [Settle (promise r) (Reject e)])) ! a =
      r\<lparr>status := ''error'', rvalue := e\<rparr>"
    using settle_own [OF wf_run [of evs] a(1), of "Reject e"] a(2) st
    by (simp add: run_append)
  with a(3) show "entry (run (evs @ [Settle (promise r) (Reject e)])) ?k =
        Some (r\<lparr>status := ''error'', rvalue := e\<rparr>)"
    by simp
next
  assume "entry (run evs) (fetchKey h @ '':'' @ toString x) = Some r \<and> status r = ''error''"
  then show "read h x (run evs) = (Return JUndefined, run evs)"
    by (simp add: read_entry)
qed

theorem rejected_status_never_stored_witness:
  "objects (run [Read (createResource ''comments'' 0) (JNum (Abs_safe_integer 42)),
        Settle 0 (Reject (JStr ''network error''))]) =
     [\<lparr>promise = 0, status = ''error'', rvalue = JStr ''network error''\<rparr>] \<and>
   status \<lparr>promise = 0, status = ''error'', rvalue = JStr ''network error''\<rparr> \<noteq> ''rejected'' \<and>
   entry (run [Read (createResource ''comments'' 0) (JNum (Abs_safe_integer 42))]) ''comments:42'' =
     Some \<lparr>promise = 0, status = ''pending'', rvalue = JNull\<rparr> \<and>
   entry (run ([Read (createResource ''comments'' 0) (JNum (Abs_safe_integer 42))] @
               [Settle 0 (Reject (JStr ''network error''))])) ''comments:42'' =
     Some \<lparr>promise = 0, status = ''error'', rvalue = JStr ''network error''\<rparr> \<and>
   read (createResource ''comments'' 0) (JNum (Abs_safe_integer 42))
     (run [Read (createResource ''comments'' 0) (JNum (Abs_safe_integer 42)),
           Settle 0 (Reject (JStr ''network error''))]) =
     (Return JUndefined,
      run [Read (createResource ''comments'' 0) (JNum (Abs_safe_integer 42)),
           Settle 0 (Reject (JStr ''network error''))])"
  using rejected_status_never_stored [of "[Read (createResource ''comments'' 0) (JNum (Abs_safe_integer 42)),
        Settle 0 (Reject (JStr ''network error''))]" "createResource ''comments'' 0" "JNum (Abs_safe_integer 42)"
      "\<lparr>promise = 0, status = ''error'', rvalue = JStr ''network error''\<rparr>" JNull]
    rejected_status_never_stored [of "[Read (createResource ''comments'' 0) (JNum (Abs_safe_integer 42))]"
      "createResource ''comments'' 0" "JNum (Abs_safe_integer 42)"
      "\<lparr>promise = 0, status = ''pending'', rvalue = JNull\<rparr>" "JStr ''network error''"]
  by (simp add: eval_defs)

text \<open>
  Claim C10: all handles work on the one map. When a key is first requested through
  the handle \<open>h1\<close>, a \<^verbatim>\<open>read\<close> or \<^verbatim>\<open>preload\<close> of the same input through any handle
  \<open>h2\<close> of the same family, at any later time, changes nothing, and the only loader
  invocation ever made for the key is the one of the loader of \<open>h1\<close>. The same holds
  for two calls of \<^verbatim>\<open>loadImage\<close> with one \<^verbatim>\<open>src\<close>, each of which builds its own
  loader: the second call invokes no loader.
\<close>

theorem handles_share_one_cache:
  assumes "fetchKey h2 = fetchKey h1"
    and "resourceCache (run evs) (fetchKey h1 @ '':'' @ toString x) = None"
    and "e1 = Read h1 x \<or> e1 = Preload h1 x"
  shows "snd (read h2 x (run (evs @ e1 # evs'))) = run (evs @ e1 # evs') \<and>
    snd (preload h2 x (run (evs @ e1 # evs'))) = run (evs @ e1 # evs') \<and>
    calls_for (run (evs @ e1 # evs')) (fetchKey h1 @ '':'' @ toString x) =
      [\<lparr>call_key = fetchKey h1 @ '':'' @ toString x, call_fetch = fetch h1, call_input = x,
        call_promise = length (promises (run evs))\<rparr>] \<and>
    snd (loadImage src f2 (snd (loadImage src f1 s))) = snd (loadImage src f1 s) \<and>
    calls (snd (loadImage src f2 (snd (loadImage src f1 s)))) = calls (snd (loadImage src f1 s))"
proof (intro conjI)
  let ?k = "fetchKey h1 @ '':'' @ toString x"
  let ?s1 = "exec e1 (run evs)"
  have s1: "?s1 = accessData h1 ?k x (run evs)"
    using assms(3) by (auto simp: snd_read snd_preload)
  have c1: "resourceCache ?s1 ?k = Some (length (objects (run evs)))"
    using assms(2) by (simp add: s1 accessData_absent)
  have run: "run (evs @ e1 # evs') = fold exec evs' ?s1"
    by (simp add: run_def)
  have pres: "resourceCache (run (evs @ e1 # evs')) ?k \<noteq> None"
    using fold_cache_mono [OF c1, of evs'] by (simp add: run)
  show "snd (read h2 x (run (evs @ e1 # evs'))) = run (evs @ e1 # evs')"
    unfolding snd_read assms(1) using pres by (rule accessData_present)
  show "snd (preload h2 x (run (evs @ e1 # evs'))) = run (evs @ e1 # evs')"
    unfolding snd_preload assms(1) using pres by (rule accessData_present)
  have "calls_for (run evs) ?k = []"
    using logged_run [of evs] assms(2) unfolding logged_def by (auto dest: spec [of _ ?k])
  then have "calls_for ?s1 ?k = [\<lparr>call_key = ?k, call_fetch = fetch h1, call_input = x,
        call_promise = length (promises (run evs))\<rparr>]"
    using assms(2) by (simp add: s1 accessData_absent calls_for_def)
  then show "calls_for (run (evs @ e1 # evs')) ?k = [\<lparr>call_key = ?k, call_fetch = fetch h1,
        call_input = x, call_promise = length (promises (run evs))\<rparr>]"
    using fold_calls_for [OF c1, of evs'] by (simp add: run)
  have "resourceCache (snd (loadImage src f1 s)) (src @ '':'' @ toString JUndefined) \<noteq> None"
    using accessData_dom [of "createResource src f1" "src @ '':'' @ toString JUndefined" JUndefined s]
    by (auto simp: snd_loadImage preloadImage_def snd_read createResource_def)
  then show li: "snd (loadImage src f2 (snd (loadImage src f1 s))) = snd (loadImage src f1 s)"
    using accessData_present [of "snd (loadImage src f1 s)" "src @ '':'' @ toString JUndefined"
        "createResource src f2" JUndefined]
    by (simp add: snd_loadImage [of src f2] preloadImage_def snd_read createResource_def)
  show "calls (snd (loadImage src f2 (snd (loadImage src f1 s)))) = calls (snd (loadImage src f1 s))"
    by (simp only: li)
qed

theorem handles_share_one_cache_witness:
  "fetchKey (createResource ''img.png'' 1) = fetchKey (createResource ''img.png'' 0) \<and>
   resourceCache (run []) ''img.png:undefined'' = None \<and>
   snd (read (createResource ''img.png'' 1) JUndefined
          (run ([] @ Read (createResource ''img.png'' 0) JUndefined # [Settle 0 (Fulfil (JStr ''img.png''))]))) =
     run ([] @ Read (createResource ''img.png'' 0) JUndefined # [Settle 0 (Fulfil (JStr ''img.png''))]) \<and>
   calls_for (run ([] @ Read (createResource ''img.png'' 0) JUndefined #
                   [Settle 0 (Fulfil (JStr ''img.png''))])) ''img.png:undefined'' =
     [\<lparr>call_key = ''img.png:undefined'', call_fetch = 0, call_input = JUndefined,
       call_promise = 0\<rparr>]"
  using handles_share_one_cache [of "createResource ''img.png'' 1" "createResource ''img.png'' 0"
      "[]" JUndefined "Read (createResource ''img.png'' 0) JUndefined"
      "[Settle 0 (Fulfil (JStr ''img.png''))]" "''img.png''" 1 0 init]
  by (simp add: eval_defs)

end
